theory Spec2Isabelle
  imports Complex_Main "HOL-Library.Char_ord" "HOL-Library.List_Lexorder" "HOL-Library.Sublist"
begin

section \<open>Data model: the data frame of app.py\<close>

text \<open>
  The script app.py holds the uploaded table in a pandas data frame \<open>df\<close>. A frame is an
  ordered sequence of named columns. A column of dtype int64 or float64 holds numbers or
  the missing marker; a column of dtype object, as the CSV loader produces it, holds text
  or the missing marker. The script only ever asks whether a dtype is one of int64 and
  float64 (lines 90 and 95), so the two are one constructor here.

  Numbers are exact rationals: the rounding of float64 arithmetic is not modelled, the
  special values of a division by zero are (type \<open>npfloat\<close> below). A text is a list of
  code points below 256.
\<close>

datatype coldata = NumCol "rat option list" | ObjCol "string option list"

datatype column = Column (name: string) (data: coldata)

type_synonym table = "column list"

datatype cell = Missing | Num rat | Txt string

datatype error = LoadError | NarrativeUnavailable | ValueError | AttributeError

fun col_len :: "coldata \<Rightarrow> nat" where
  "col_len (NumCol xs) = length xs"
| "col_len (ObjCol xs) = length xs"

fun cells :: "coldata \<Rightarrow> cell list" where
  "cells (NumCol xs) = map (\<lambda>x. case x of None \<Rightarrow> Missing | Some r \<Rightarrow> Num r) xs"
| "cells (ObjCol xs) = map (\<lambda>x. case x of None \<Rightarrow> Missing | Some s \<Rightarrow> Txt s) xs"

text \<open>\<open>df.shape[0]\<close>, \<open>df.shape[1]\<close> and \<open>df.size\<close>.\<close>

definition nrows :: "table \<Rightarrow> nat" where
  "nrows t = (case t of [] \<Rightarrow> 0 | c # _ \<Rightarrow> col_len (data c))"

definition ncols :: "table \<Rightarrow> nat" where
  "ncols t = length t"

definition df_size :: "table \<Rightarrow> nat" where
  "df_size t = nrows t * ncols t"

text \<open>All columns of a frame have the same number of rows.\<close>

definition wf_table :: "table \<Rightarrow> bool" where
  "wf_table t = list_all (\<lambda>c. col_len (data c) = nrows t) t"

section \<open>Quality score (lines 45-47 and 114-116)\<close>

text \<open>
  \<open>df.isnull().sum().sum()\<close> is a numpy int64, so \<open>missing_cells / total_cells\<close> is numpy's
  true division: a zero divisor gives nan for a zero dividend and an infinity otherwise,
  with a warning and no exception. The subtraction and the product then follow IEEE 754.
\<close>

datatype npfloat = Fin rat | PosInf | NegInf | NaN

definition np_true_divide :: "nat \<Rightarrow> nat \<Rightarrow> npfloat" where
  "np_true_divide m n =
     (if n \<noteq> 0 then Fin (of_nat m / of_nat n) else if m = 0 then NaN else PosInf)"

fun np_sub :: "npfloat \<Rightarrow> npfloat \<Rightarrow> npfloat" where
  "np_sub (Fin a) (Fin b) = Fin (a - b)"
| "np_sub NaN _ = NaN"
| "np_sub _ NaN = NaN"
| "np_sub PosInf PosInf = NaN"
| "np_sub NegInf NegInf = NaN"
| "np_sub PosInf _ = PosInf"
| "np_sub NegInf _ = NegInf"
| "np_sub (Fin _) PosInf = NegInf"
| "np_sub (Fin _) NegInf = PosInf"

fun np_neg :: "npfloat \<Rightarrow> npfloat" where
  "np_neg (Fin a) = Fin (- a)"
| "np_neg PosInf = NegInf"
| "np_neg NegInf = PosInf"
| "np_neg NaN = NaN"

fun np_mul :: "npfloat \<Rightarrow> npfloat \<Rightarrow> npfloat" where
  "np_mul (Fin a) (Fin b) = Fin (a * b)"
| "np_mul NaN _ = NaN"
| "np_mul _ NaN = NaN"
| "np_mul (Fin a) y = (if a = 0 then NaN else if 0 < a then y else np_neg y)"
| "np_mul x (Fin b) = (if b = 0 then NaN else if 0 < b then x else np_neg x)"
| "np_mul PosInf y = y"
| "np_mul NegInf y = np_neg y"

fun count_missing :: "coldata \<Rightarrow> nat" where
  "count_missing (NumCol xs) = length (filter (\<lambda>x. x = None) xs)"
| "count_missing (ObjCol xs) = length (filter (\<lambda>x. x = None) xs)"

definition missing_cells :: "table \<Rightarrow> nat" where
  "missing_cells t = sum_list (map (\<lambda>c. count_missing (data c)) t)"

definition quality :: "table \<Rightarrow> npfloat" where
  "quality t = np_mul (Fin 100) (np_sub (Fin 1) (np_true_divide (missing_cells t) (df_size t)))"

section \<open>Cleaning pipeline (lines 81-104)\<close>

subsection \<open>Header normalization (line 81)\<close>

text \<open>
  \<open>str.strip()\<close> without argument removes the characters that Python counts as white
  space from both ends; below code point 256 these are the twelve listed here. The
  regular expression class \<open>\s\<close> of line 83 matches the same characters.
\<close>

definition is_space :: "char \<Rightarrow> bool" where
  "is_space c = (c \<in> set [CHR 0x09, CHR 0x0A, CHR 0x0B, CHR 0x0C, CHR 0x0D, CHR 0x1C,
                             CHR 0x1D, CHR 0x1E, CHR 0x1F, CHR 0x20, CHR 0x85, CHR 0xA0])"

definition strip :: "string \<Rightarrow> string" where
  "strip s = rev (dropWhile is_space (rev (dropWhile is_space s)))"

definition strip_headers :: "table \<Rightarrow> table" where
  "strip_headers t = map (\<lambda>c. Column (strip (name c)) (data c)) t"

subsection \<open>Duplicate row removal (line 82)\<close>

text \<open>
  \<open>DataFrame.drop_duplicates()\<close> returns the frame as it is when it has no cell, and
  otherwise \<open>self[-self.duplicated()]\<close>. \<open>duplicated\<close> walks the rows from the first to the
  last with a hash table of the rows met so far and marks a row that is in the table;
  two missing markers compare equal there.
\<close>

definition row_at :: "table \<Rightarrow> nat \<Rightarrow> cell list" where
  "row_at t i = map (\<lambda>c. cells (data c) ! i) t"

definition rows :: "table \<Rightarrow> cell list list" where
  "rows t = map (row_at t) [0..<nrows t]"

fun duplicated_from :: "'a list \<Rightarrow> 'a list \<Rightarrow> bool list" where
  "duplicated_from seen [] = []"
| "duplicated_from seen (r # rs) =
     (if r \<in> set seen then True # duplicated_from seen rs
      else False # duplicated_from (r # seen) rs)"

definition duplicated :: "table \<Rightarrow> bool list" where
  "duplicated t = duplicated_from [] (rows t)"

text \<open>Boolean indexing: the entries whose mask bit is set, in their order.\<close>

fun take_mask :: "bool list \<Rightarrow> 'a list \<Rightarrow> 'a list" where
  "take_mask (b # bs) (x # xs) = (if b then x # take_mask bs xs else take_mask bs xs)"
| "take_mask _ _ = []"

fun take_mask_col :: "bool list \<Rightarrow> coldata \<Rightarrow> coldata" where
  "take_mask_col m (NumCol xs) = NumCol (take_mask m xs)"
| "take_mask_col m (ObjCol xs) = ObjCol (take_mask m xs)"

definition drop_duplicates :: "table \<Rightarrow> table" where
  "drop_duplicates t =
     (if df_size t = 0 then t
      else map (\<lambda>c. Column (name c) (take_mask_col (map Not (duplicated t)) (data c))) t)"

subsection \<open>Blank-to-missing normalization (line 83)\<close>

text \<open>
  \<open>df.replace(r"^\s*$", np.nan, regex=True)\<close> replaces a text cell that the pattern matches,
  which is a text of white space only, the empty text included. Numbers are left alone.
\<close>

definition blank :: "string \<Rightarrow> bool" where
  "blank s = list_all is_space s"

fun blank_to_missing_col :: "coldata \<Rightarrow> coldata" where
  "blank_to_missing_col (NumCol xs) = NumCol xs"
| "blank_to_missing_col (ObjCol xs) =
     ObjCol (map (\<lambda>x. case x of None \<Rightarrow> None | Some s \<Rightarrow> if blank s then None else Some s) xs)"

definition blank_to_missing :: "table \<Rightarrow> table" where
  "blank_to_missing t = map (\<lambda>c. Column (name c) (blank_to_missing_col (data c))) t"

subsection \<open>Type coercion (lines 86-89)\<close>

text \<open>
  \<open>pd.to_numeric\<close> walks an object column and raises ValueError at the first text that is
  not a numeral; a missing marker stays missing. Which texts are numerals is decided
  inside pandas: the function \<open>parse\<close> stands for it, giving the number a text denotes.
  A column that is numeric already is returned as it is.
\<close>

fun to_numeric_vals :: "(string \<Rightarrow> rat option) \<Rightarrow> string option list \<Rightarrow> error + rat option list" where
  "to_numeric_vals parse [] = Inr []"
| "to_numeric_vals parse (None # xs) =
     (case to_numeric_vals parse xs of Inl e \<Rightarrow> Inl e | Inr ys \<Rightarrow> Inr (None # ys))"
| "to_numeric_vals parse (Some s # xs) =
     (case parse s of
        None \<Rightarrow> Inl ValueError
      | Some r \<Rightarrow> (case to_numeric_vals parse xs of Inl e \<Rightarrow> Inl e | Inr ys \<Rightarrow> Inr (Some r # ys)))"

fun to_numeric :: "(string \<Rightarrow> rat option) \<Rightarrow> coldata \<Rightarrow> error + coldata" where
  "to_numeric parse (NumCol xs) = Inr (NumCol xs)"
| "to_numeric parse (ObjCol xs) =
     (case to_numeric_vals parse xs of Inl e \<Rightarrow> Inl e | Inr ys \<Rightarrow> Inr (NumCol ys))"

text \<open>The \<open>try\<close> of line 86 with its bare \<open>except: pass\<close>: on an error the column is not assigned.\<close>

definition coerce :: "(string \<Rightarrow> rat option) \<Rightarrow> coldata \<Rightarrow> coldata" where
  "coerce parse d = (case to_numeric parse d of Inl e \<Rightarrow> d | Inr d' \<Rightarrow> d')"

subsection \<open>Imputation (lines 90-93)\<close>

fun dropna :: "'a option list \<Rightarrow> 'a list" where
  "dropna [] = []"
| "dropna (None # xs) = dropna xs"
| "dropna (Some v # xs) = v # dropna xs"

text \<open>
  \<open>Series.median()\<close> skips the missing cells; it is the middle one of the sorted values, or
  the mean of the two middle ones, and nan when there is no value.
\<close>

definition median :: "rat option list \<Rightarrow> rat option" where
  "median xs =
     (let ys = sort (dropna xs); n = length ys
      in if n = 0 then None
         else if odd n then Some (ys ! (n div 2))
         else Some ((ys ! (n div 2 - 1) + ys ! (n div 2)) / 2))"

text \<open>
  \<open>Series.mode()\<close> skips the missing cells and returns the values of the highest count,
  sorted; texts sort by code point, a proper prefix first.
\<close>

definition mode :: "string option list \<Rightarrow> string list" where
  "mode xs =
     (let vs = dropna xs
      in if vs = [] then []
         else sort (remdups (filter (\<lambda>v. count_list vs v = Max (set (map (count_list vs) vs))) vs)))"

definition fill_value :: "string option list \<Rightarrow> string" where
  "fill_value xs = (case mode xs of [] \<Rightarrow> ''Unknown'' | m # _ \<Rightarrow> m)"

text \<open>\<open>fillna(v)\<close>; filling with nan, the median of no value, changes nothing.\<close>

definition fillna :: "'a \<Rightarrow> 'a option list \<Rightarrow> 'a option list" where
  "fillna v xs = map (\<lambda>x. case x of None \<Rightarrow> Some v | Some y \<Rightarrow> Some y) xs"

fun impute :: "coldata \<Rightarrow> coldata" where
  "impute (NumCol xs) = (case median xs of None \<Rightarrow> NumCol xs | Some m \<Rightarrow> NumCol (fillna m xs))"
| "impute (ObjCol xs) = ObjCol (fillna (fill_value xs) xs)"

text \<open>The body of the loop of lines 85-93, the column's state after stage 4.\<close>

definition stage4_col :: "(string \<Rightarrow> rat option) \<Rightarrow> coldata \<Rightarrow> coldata" where
  "stage4_col parse d = impute (coerce parse d)"

subsection \<open>Outlier clipping (lines 95-100)\<close>

text \<open>
  \<open>Series.quantile\<close> skips the missing cells and interpolates linearly between the two
  sorted values around position \<open>(n - 1) * q\<close>; it is nan when there is no value.
\<close>

definition interpolate :: "rat list \<Rightarrow> rat \<Rightarrow> rat" where
  "interpolate ys h =
     (let i = nat \<lfloor>h\<rfloor>; j = min (i + 1) (length ys - 1)
      in ys ! i + (ys ! j - ys ! i) * (h - of_nat i))"

definition quantile :: "rat \<Rightarrow> rat option list \<Rightarrow> rat option" where
  "quantile q xs =
     (let ys = sort (dropna xs)
      in if ys = [] then None else Some (interpolate ys (of_nat (length ys - 1) * q)))"

text \<open>
  Line 100: \<open>np.where((col < lower) | (col > upper), col.median(), col)\<close>. A comparison with
  nan is false, so a column without a value is left as it is.
\<close>

definition clip_outliers :: "rat option list \<Rightarrow> rat option list" where
  "clip_outliers xs =
     (case (quantile (1/4) xs, quantile (3/4) xs) of
        (Some q1, Some q3) \<Rightarrow>
          (let iqr = q3 - q1; lower = q1 - 3/2 * iqr; upper = q3 + 3/2 * iqr; med = median xs
           in map (\<lambda>x. case x of None \<Rightarrow> None
                        | Some v \<Rightarrow> if v < lower \<or> upper < v then med else Some v) xs)
      | _ \<Rightarrow> xs)"

fun clip_col :: "coldata \<Rightarrow> coldata" where
  "clip_col (NumCol xs) = NumCol (clip_outliers xs)"
| "clip_col (ObjCol xs) = ObjCol xs"

subsection \<open>Dead-column pruning (lines 102-104)\<close>

text \<open>
  \<open>convert_dtypes\<close> changes dtypes to their nullable variants and no value. \<open>dropna(axis=1,
  how="all")\<close> drops a column whose cells are all missing, so every column of a frame
  without rows. Line 104 keeps a column that has a cell different from the empty text,
  missing cells skipped; a number differs from every text.
\<close>

fun all_missing :: "coldata \<Rightarrow> bool" where
  "all_missing (NumCol xs) = list_all (\<lambda>x. x = None) xs"
| "all_missing (ObjCol xs) = list_all (\<lambda>x. x = None) xs"

fun any_not_empty :: "coldata \<Rightarrow> bool" where
  "any_not_empty (NumCol xs) = list_ex (\<lambda>x. x \<noteq> None) xs"
| "any_not_empty (ObjCol xs) = list_ex (\<lambda>x. x \<noteq> None \<and> x \<noteq> Some []) xs"

definition prune :: "table \<Rightarrow> table" where
  "prune t = filter (\<lambda>c. any_not_empty (data c)) (filter (\<lambda>c. \<not> all_missing (data c)) t)"

subsection \<open>The pipeline\<close>

text \<open>
  The loop of line 85 reads \<open>df[col].dtype\<close>. When two headers are equal after line 81,
  \<open>df[col]\<close> is a frame, the \<open>try\<close> swallows the TypeError of \<open>to_numeric\<close>, and line 90
  raises AttributeError. With distinct headers every column is processed on its own;
  \<open>fillna(..., inplace=True)\<close> on \<open>df[col]\<close> writes into the frame, as it does in pandas
  without copy-on-write.
\<close>

definition stage4 :: "(string \<Rightarrow> rat option) \<Rightarrow> table \<Rightarrow> error + table" where
  "stage4 parse df =
     (if \<not> distinct (map name df) then Inl AttributeError
      else Inr (map (\<lambda>c. Column (name c) (stage4_col parse (data c))) df))"

definition stage5 :: "table \<Rightarrow> table" where
  "stage5 df = map (\<lambda>c. Column (name c) (clip_col (data c))) df"

definition clean :: "(string \<Rightarrow> rat option) \<Rightarrow> table \<Rightarrow> error + table" where
  "clean parse df =
     (case stage4 parse (blank_to_missing (drop_duplicates (strip_headers df))) of
        Inl e \<Rightarrow> Inl e
      | Inr df4 \<Rightarrow> Inr (prune (stage5 df4)))"

text \<open>The table that enters stage 4: the frame after lines 81-83.\<close>

definition stage3 :: "table \<Rightarrow> table" where
  "stage3 df = blank_to_missing (drop_duplicates (strip_headers df))"

subsection \<open>The order of the hash table\<close>

text \<open>
  \<open>Series.mode()\<close> collects the values of the highest count from a hash table and then sorts
  them (\<open>htable.mode\<close> followed by \<open>np.sort\<close>); \<open>[0]\<close> of line 93 takes the first. In which
  order the table gives the values is not fixed by pandas' interface. The definition of
  \<open>mode\<close> above takes the order of \<open>remdups\<close>. The definitions below repeat lines 85-104
  with the enumeration of the table as a parameter \<open>h\<close>: any function that gives each of
  the values once.
\<close>

definition table_order :: "(string list \<Rightarrow> string list) \<Rightarrow> bool" where
  "table_order h = (\<forall>ys. distinct (h ys) \<and> set (h ys) = set ys)"

definition mode_by :: "(string list \<Rightarrow> string list) \<Rightarrow> string option list \<Rightarrow> string list" where
  "mode_by h xs =
     (let vs = dropna xs
      in if vs = [] then []
         else sort (h (filter (\<lambda>v. count_list vs v = Max (set (map (count_list vs) vs))) vs)))"

definition fill_value_by :: "(string list \<Rightarrow> string list) \<Rightarrow> string option list \<Rightarrow> string" where
  "fill_value_by h xs = (case mode_by h xs of [] \<Rightarrow> ''Unknown'' | m # _ \<Rightarrow> m)"

fun impute_by :: "(string list \<Rightarrow> string list) \<Rightarrow> coldata \<Rightarrow> coldata" where
  "impute_by h (NumCol xs) =
     (case median xs of None \<Rightarrow> NumCol xs | Some m \<Rightarrow> NumCol (fillna m xs))"
| "impute_by h (ObjCol xs) = ObjCol (fillna (fill_value_by h xs) xs)"

definition stage4_by :: "(string list \<Rightarrow> string list) \<Rightarrow> (string \<Rightarrow> rat option) \<Rightarrow> table
                         \<Rightarrow> error + table" where
  "stage4_by h parse df =
     (if \<not> distinct (map name df) then Inl AttributeError
      else Inr (map (\<lambda>c. Column (name c) (impute_by h (coerce parse (data c)))) df))"

definition clean_by :: "(string list \<Rightarrow> string list) \<Rightarrow> (string \<Rightarrow> rat option) \<Rightarrow> table
                        \<Rightarrow> error + table" where
  "clean_by h parse df =
     (case stage4_by h parse (blank_to_missing (drop_duplicates (strip_headers df))) of
        Inl e \<Rightarrow> Inl e
      | Inr df4 \<Rightarrow> Inr (prune (stage5 df4)))"

text \<open>Two enumerations: first occurrences last to first, and the same reversed.\<close>

definition rev_order :: "string list \<Rightarrow> string list" where
  "rev_order ys = rev (remdups ys)"

section \<open>The script as a whole (lines 29-195)\<close>

text \<open>
  One run of the script on one upload. The remote text generator is the function \<open>ask\<close>:
  \<open>None\<close> is a call that raises. Neither call of \<open>model.generate_content\<close> (lines 70 and
  139) is inside a \<open>try\<close>, so an exception there ends the run; what was shown before stays
  on the page. The result is the list of what the run showed or offered, and the error
  that ended it, if any.
\<close>

datatype upload = NoFile | Unreadable | Loaded table

datatype prompt = AnalysisPrompt table | SummaryPrompt npfloat npfloat "string list"

datatype event =
    UploadHint
  | ErrorShown
  | OriginalPreview table
  | BeforeMetric npfloat
  | AnalysisShown string
  | CleanedPreview table
  | Metrics npfloat npfloat npfloat
  | SummaryShown string
  | PdfDownload string npfloat npfloat npfloat nat nat
  | CsvDownload table

fun session :: "(prompt \<Rightarrow> string option) \<Rightarrow> (string \<Rightarrow> rat option) \<Rightarrow> upload
                \<Rightarrow> event list \<times> error option" where
  "session ask parse NoFile = ([UploadHint], None)"
| "session ask parse Unreadable = ([ErrorShown], Some LoadError)"
| "session ask parse (Loaded df) =
     (let before_quality = quality df;
          shown1 = [OriginalPreview df, BeforeMetric before_quality]
      in case ask (AnalysisPrompt df) of
           None \<Rightarrow> (shown1, Some NarrativeUnavailable)
         | Some ai_analysis \<Rightarrow>
             (let shown2 = shown1 @ [AnalysisShown ai_analysis]
              in case clean parse df of
                   Inl e \<Rightarrow> (shown2, Some e)
                 | Inr df' \<Rightarrow>
                     (let after_quality = quality df';
                          improvement = np_sub after_quality before_quality;
                          shown3 = shown2 @ [CleanedPreview df',
                                             Metrics before_quality after_quality improvement]
                      in case ask (SummaryPrompt before_quality after_quality (map name df')) of
                           None \<Rightarrow> (shown3, Some NarrativeUnavailable)
                         | Some ai_report \<Rightarrow>
                             (shown3 @ [SummaryShown ai_report,
                                        PdfDownload ai_report before_quality after_quality
                                          improvement (nrows df') (ncols df'),
                                        CsvDownload df'], None))))"

text \<open>What a run shows of the cleaning itself: the scores and the cleaned table.\<close>

fun cleaning_output :: "event \<Rightarrow> bool" where
  "cleaning_output (BeforeMetric _) = True"
| "cleaning_output (CleanedPreview _) = True"
| "cleaning_output (Metrics _ _ _) = True"
| "cleaning_output (CsvDownload _) = True"
| "cleaning_output _ = False"

fun is_csv :: "event \<Rightarrow> bool" where
  "is_csv (CsvDownload _) = True"
| "is_csv _ = False"

fun is_pdf :: "event \<Rightarrow> bool" where
  "is_pdf (PdfDownload _ _ _ _ _ _) = True"
| "is_pdf _ = False"

fun is_cleaned :: "event \<Rightarrow> bool" where
  "is_cleaned (CleanedPreview _) = True"
| "is_cleaned _ = False"

text \<open>Whether a column has dtype int64 or float64.\<close>

fun is_numeric :: "coldata \<Rightarrow> bool" where
  "is_numeric (NumCol _) = True"
| "is_numeric (ObjCol _) = False"

section \<open>Concrete inputs\<close>

text \<open>
  A reader of plain decimal numerals (sign, digits, fraction), a part of what
  \<open>pd.to_numeric\<close> accepts, for running the pipeline on concrete tables.
\<close>

definition digit_of :: "char \<Rightarrow> nat option" where
  "digit_of c = (if c \<in> set ''0123456789'' then Some (of_char c - 48) else None)"

fun digits_value :: "nat \<Rightarrow> string \<Rightarrow> nat option" where
  "digits_value acc [] = Some acc"
| "digits_value acc (c # cs) =
     (case digit_of c of None \<Rightarrow> None | Some d \<Rightarrow> digits_value (10 * acc + d) cs)"

definition parse_unsigned :: "string \<Rightarrow> rat option" where
  "parse_unsigned s =
     (let ip = takeWhile (\<lambda>c. c \<noteq> CHR ''.'') s; fp = drop (length ip + 1) s
      in if ip = [] \<and> fp = [] then None
         else case (digits_value 0 ip, digits_value 0 fp) of
                (Some a, Some b) \<Rightarrow> Some (of_nat a + of_nat b / 10 ^ length fp)
              | _ \<Rightarrow> None)"

definition parse_number :: "string \<Rightarrow> rat option" where
  "parse_number s =
     (case s of
        [] \<Rightarrow> None
      | c # r \<Rightarrow> if c = CHR ''-'' then map_option uminus (parse_unsigned r)
                 else if c = CHR ''+'' then parse_unsigned r
                 else parse_unsigned s)"

text \<open>Three text generators: one that always raises, one that never does, one that
  answers the first prompt and raises on the second.\<close>

definition ask_fails :: "prompt \<Rightarrow> string option" where
  "ask_fails p = None"

definition ask_ok :: "prompt \<Rightarrow> string option" where
  "ask_ok p = Some ''ok''"

fun ask_once :: "prompt \<Rightarrow> string option" where
  "ask_once (AnalysisPrompt _) = Some ''ok''"
| "ask_once (SummaryPrompt _ _ _) = None"

text \<open>The table of a CSV file that has a header line \<open>a,b\<close> and no data line.\<close>

definition header_only :: table where
  "header_only = [Column ''a'' (ObjCol []), Column ''b'' (ObjCol [])]"

definition one_gap :: table where
  "one_gap = [Column ''x'' (NumCol [Some 1, None]), Column ''y'' (ObjCol [Some ''u'', Some ''v''])]"

text \<open>
  The example table of the specification, with its cells as texts, and as the CSV loader
  delivers it (the numerals read as numbers, the empty field as missing).
\<close>

definition example_text :: table where
  "example_text =
     [Column ''Name'' (ObjCol [Some ''Alice'', Some ''Alice'', Some ''Bob'']),
      Column '' Age '' (ObjCol [Some ''30'', Some ''30'', Some []])]"

definition example_loaded :: table where
  "example_loaded =
     [Column ''Name'' (ObjCol [Some ''Alice'', Some ''Alice'', Some ''Bob'']),
      Column '' Age '' (NumCol [Some 30, Some 30, None])]"

definition example_cleaned :: table where
  "example_cleaned =
     [Column ''Name'' (ObjCol [Some ''Alice'', Some ''Bob'']),
      Column ''Age'' (NumCol [Some 30, Some 30])]"

text \<open>
  Tables with a column that has no value: as loaded from a CSV file whose second field is
  empty on every line, and with a second field of white space only. A table with a
  numeric, a textual and an empty column.
\<close>

definition gap_column :: table where
  "gap_column = [Column ''a'' (NumCol [Some 1, Some 2]), Column ''b'' (NumCol [None, None])]"

definition blank_column :: table where
  "blank_column = [Column ''a'' (ObjCol [Some ''x'', Some ''y'']), Column ''b'' (ObjCol [Some '' '', Some []])]"

definition mixed :: table where
  "mixed = [Column ''n'' (NumCol [Some 4, None, Some 6]),
            Column ''t'' (ObjCol [None, Some ''u'', Some ''u'']),
            Column ''e'' (ObjCol [None, None, None])]"


definition tied_upload :: table where
  "tied_upload =
     [Column ''k'' (NumCol [Some 1, Some 2, Some 3]),
      Column ''c'' (ObjCol [Some ''b'', Some ''a'', None])]"

section \<open>The quality score on an empty table\<close>

lemma count_missing_le: "count_missing d \<le> col_len d"
  by (cases d) simp_all

lemma missing_sum_le:
  "\<forall>c \<in> set t. col_len (data c) = n \<Longrightarrow>
   sum_list (map (\<lambda>c. count_missing (data c)) t) \<le> n * length t"
proof (induction t)
  case Nil
  then show ?case by simp
next
  case (Cons c t)
  have "count_missing (data c) \<le> n" using Cons.prems count_missing_le [of "data c"] by simp
  moreover have "sum_list (map (\<lambda>c. count_missing (data c)) t) \<le> n * length t"
    using Cons by simp
  ultimately show ?case by simp
qed

lemma missing_le_size: "wf_table t \<Longrightarrow> missing_cells t \<le> df_size t"
  using missing_sum_le [of t "nrows t"]
  by (simp add: wf_table_def list_all_iff missing_cells_def df_size_def ncols_def)

text \<open>
  C2, as stated, fails: the table \<open>header_only\<close> has no cell, and its score is not 100 but
  not-a-number.
\<close>

theorem quality_empty_counterexample:
  "df_size header_only = 0 \<and> quality header_only = NaN \<and> quality header_only \<noteq> Fin 100"
  by (simp add: header_only_def quality_def df_size_def nrows_def ncols_def missing_cells_def
      np_true_divide_def)

text \<open>
  C2, amended: the score of every table is the code's formula, which has no guard.
  A table with no cell scores not-a-number; any other table scores
  100 * (1 - missing / total).
\<close>

theorem quality_formula:
  assumes "wf_table t"
  shows "quality t = (if df_size t = 0 then NaN
                      else Fin (100 * (1 - of_nat (missing_cells t) / of_nat (df_size t))))"
proof (cases "df_size t = 0")
  case True
  with missing_le_size [OF assms] have "missing_cells t = 0" by simp
  with True show ?thesis by (simp add: quality_def np_true_divide_def)
next
  case False
  then show ?thesis by (simp add: quality_def np_true_divide_def)
qed

theorem quality_formula_witness:
  "wf_table one_gap \<and> quality one_gap = Fin 75 \<and> wf_table header_only \<and> quality header_only = NaN"
proof -
  have w1: "wf_table one_gap" by (simp add: one_gap_def wf_table_def nrows_def)
  have w2: "wf_table header_only" by (simp add: header_only_def wf_table_def nrows_def)
  have s1: "df_size one_gap = 4" "missing_cells one_gap = 1"
    by (simp_all add: one_gap_def df_size_def nrows_def ncols_def missing_cells_def)
  have s2: "df_size header_only = 0"
    by (simp add: header_only_def df_size_def nrows_def ncols_def)
  show ?thesis
    using quality_formula [OF w1] quality_formula [OF w2] w1 w2 s1 s2 by simp
qed

section \<open>Type coercion is all or nothing\<close>

lemma to_numeric_vals_ok:
  "(\<forall>s. Some s \<in> set xs \<longrightarrow> parse s \<noteq> None) \<Longrightarrow>
   to_numeric_vals parse xs = Inr (map (\<lambda>x. Option.bind x parse) xs)"
proof (induction xs)
  case Nil
  then show ?case by simp
next
  case (Cons x xs)
  then show ?case by (cases x) auto
qed

lemma to_numeric_vals_fail:
  "Some s \<in> set xs \<Longrightarrow> parse s = None \<Longrightarrow> to_numeric_vals parse xs = Inl ValueError"
proof (induction xs)
  case Nil
  then show ?case by simp
next
  case (Cons x xs)
  show ?case
  proof (cases x)
    case None
    with Cons show ?thesis by simp
  next
    case (Some u)
    show ?thesis
    proof (cases "parse u")
      case None
      with Some show ?thesis by simp
    next
      case (Some r)
      with \<open>x = Some u\<close> Cons have "u \<noteq> s" by auto
      with Cons \<open>x = Some u\<close> have "to_numeric_vals parse xs = Inl ValueError" by simp
      with Some \<open>x = Some u\<close> show ?thesis by simp
    qed
  qed
qed

text \<open>
  C6: coercion never raises (\<open>coerce\<close> returns a column whatever \<open>to_numeric\<close> does). An object
  column whose every non-missing text is a numeral becomes numeric, each text replaced by
  its number; when a text is not a numeral, \<open>to_numeric\<close> raises ValueError, the error is
  swallowed and the column is left exactly as it was. So the column becomes numeric if
  and only if every non-missing value parses. A numeric column stays as it is.
\<close>

theorem coerce_all_or_nothing:
  "((\<forall>s. Some s \<in> set xs \<longrightarrow> parse s \<noteq> None) \<longrightarrow>
      coerce parse (ObjCol xs) = NumCol (map (\<lambda>x. Option.bind x parse) xs))
   \<and> ((\<exists>s. Some s \<in> set xs \<and> parse s = None) \<longrightarrow>
      to_numeric parse (ObjCol xs) = Inl ValueError \<and> coerce parse (ObjCol xs) = ObjCol xs)
   \<and> (is_numeric (coerce parse (ObjCol xs)) \<longleftrightarrow> (\<forall>s. Some s \<in> set xs \<longrightarrow> parse s \<noteq> None))
   \<and> coerce parse (NumCol ns) = NumCol ns"
proof -
  have a: "coerce parse (ObjCol xs) = NumCol (map (\<lambda>x. Option.bind x parse) xs)"
    if "\<forall>s. Some s \<in> set xs \<longrightarrow> parse s \<noteq> None"
    using to_numeric_vals_ok [OF that] by (simp add: coerce_def)
  have b: "to_numeric parse (ObjCol xs) = Inl ValueError \<and> coerce parse (ObjCol xs) = ObjCol xs"
    if "\<exists>s. Some s \<in> set xs \<and> parse s = None"
  proof -
    from that obtain s where "Some s \<in> set xs" "parse s = None" by blast
    then have "to_numeric_vals parse xs = Inl ValueError" by (rule to_numeric_vals_fail)
    then show ?thesis by (simp add: coerce_def)
  qed
  have c: "is_numeric (coerce parse (ObjCol xs)) \<longleftrightarrow> (\<forall>s. Some s \<in> set xs \<longrightarrow> parse s \<noteq> None)"
  proof (cases "\<forall>s. Some s \<in> set xs \<longrightarrow> parse s \<noteq> None")
    case True
    with a show ?thesis by simp
  next
    case False
    then have "\<exists>s. Some s \<in> set xs \<and> parse s = None" by auto
    with b False show ?thesis by simp
  qed
  have d: "coerce parse (NumCol ns) = NumCol ns" by (simp add: coerce_def)
  from a b c d show ?thesis by blast
qed

theorem coerce_all_or_nothing_witness:
  "coerce parse_number (ObjCol [Some ''30'', None]) = NumCol [Some 30, None]
   \<and> coerce parse_number (ObjCol [Some ''30'', Some ''x1'']) = ObjCol [Some ''30'', Some ''x1'']"
proof -
  have p1: "parse_number ''30'' = Some 30" by code_simp
  have p2: "parse_number ''x1'' = None" by code_simp
  have h1: "\<forall>s. Some s \<in> set [Some ''30'', None] \<longrightarrow> parse_number s \<noteq> None" using p1 by simp
  have h2: "\<exists>s. Some s \<in> set [Some ''30'', Some ''x1''] \<and> parse_number s = None" using p2 by auto
  show ?thesis
    using coerce_all_or_nothing [of "[Some ''30'', None]" parse_number]
      coerce_all_or_nothing [of "[Some ''30'', Some ''x1'']" parse_number] h1 h2 p1
    by simp
qed

section \<open>The example table of the specification\<close>

text \<open>
  C4, as stated, fails on the score before cleaning: the example table has six cells, and
  the score is taken before any row is removed. It is 100 when the blank is an empty text
  and 100 * (1 - 1/6) when the loader has read the blank as missing; in neither case 75.
\<close>

theorem example_counterexample:
  "quality example_text = Fin 100 \<and> quality example_loaded = Fin (250 / 3)
   \<and> quality example_text \<noteq> Fin 75 \<and> quality example_loaded \<noteq> Fin 75"
  by code_simp

text \<open>
  C4, amended: the pipeline turns the example table into the headers Name and Age, the rows
  (Alice, 30) and (Bob, 30), so two rows and two columns, the Age column numeric with its
  blank filled by the median 30. The score before cleaning is 100 * (1 - 1/6) for the table
  as loaded, and the score after cleaning is 100.
\<close>

theorem example_cleaning:
  "clean parse_number example_text = Inr example_cleaned
   \<and> clean parse_number example_loaded = Inr example_cleaned
   \<and> map name example_cleaned = [''Name'', ''Age'']
   \<and> nrows example_cleaned = 2 \<and> ncols example_cleaned = 2
   \<and> quality example_loaded = Fin (250 / 3)
   \<and> quality example_cleaned = Fin 100"
  by code_simp


section \<open>A failing text generator\<close>

text \<open>
  C1, as stated, fails: when the text generator raises, the run on the example table ends
  with that error after the first score; no cleaned table is shown and no CSV is offered,
  although cleaning that table succeeds.
\<close>

theorem narrative_failure_counterexample:
  "session ask_fails parse_number (Loaded example_loaded)
     = ([OriginalPreview example_loaded, BeforeMetric (Fin (250 / 3))], Some NarrativeUnavailable)
   \<and> \<not> list_ex is_cleaned (fst (session ask_fails parse_number (Loaded example_loaded)))
   \<and> \<not> list_ex is_csv (fst (session ask_fails parse_number (Loaded example_loaded)))
   \<and> clean parse_number example_loaded = Inr example_cleaned"
  by code_simp

text \<open>
  C1, amended: a failure of the first call ends the run before cleaning starts, with the
  original preview and the first score shown and nothing else. A failure of the second
  call ends the run after cleaning: the cleaned table and the scores have been shown,
  neither the PDF nor the CSV is offered. The CSV is offered exactly when both calls answer and cleaning raises no
  error, and it is then the cleaned table.
\<close>

theorem narrative_failure_aborts:
  "(ask (AnalysisPrompt df) = None \<longrightarrow>
      session ask parse (Loaded df)
        = ([OriginalPreview df, BeforeMetric (quality df)], Some NarrativeUnavailable))
   \<and> (\<forall>a df'. ask (AnalysisPrompt df) = Some a \<and> clean parse df = Inr df'
          \<and> ask (SummaryPrompt (quality df) (quality df') (map name df')) = None \<longrightarrow>
        snd (session ask parse (Loaded df)) = Some NarrativeUnavailable
        \<and> CleanedPreview df' \<in> set (fst (session ask parse (Loaded df)))
        \<and> Metrics (quality df) (quality df') (np_sub (quality df') (quality df))
             \<in> set (fst (session ask parse (Loaded df)))
        \<and> \<not> list_ex is_pdf (fst (session ask parse (Loaded df)))
        \<and> \<not> list_ex is_csv (fst (session ask parse (Loaded df))))
   \<and> (list_ex is_csv (fst (session ask parse (Loaded df))) \<longleftrightarrow>
        (\<exists>a df' r. ask (AnalysisPrompt df) = Some a \<and> clean parse df = Inr df'
          \<and> ask (SummaryPrompt (quality df) (quality df') (map name df')) = Some r))
   \<and> (\<forall>x. CsvDownload x \<in> set (fst (session ask parse (Loaded df))) \<longrightarrow> clean parse df = Inr x)"
  by (auto simp add: Let_def split: option.splits sum.splits)

theorem narrative_failure_aborts_witness:
  "snd (session ask_fails parse_number (Loaded example_loaded)) = Some NarrativeUnavailable
   \<and> snd (session ask_once parse_number (Loaded example_loaded)) = Some NarrativeUnavailable
   \<and> CleanedPreview example_cleaned \<in> set (fst (session ask_once parse_number (Loaded example_loaded)))
   \<and> \<not> list_ex is_csv (fst (session ask_once parse_number (Loaded example_loaded)))
   \<and> list_ex is_csv (fst (session ask_ok parse_number (Loaded example_loaded)))"
proof -
  have c: "clean parse_number example_loaded = Inr example_cleaned" by code_simp
  have f: "ask_fails (AnalysisPrompt example_loaded) = None" by (simp add: ask_fails_def)
  have o: "ask_once (AnalysisPrompt example_loaded) = Some ''ok''"
    "ask_once (SummaryPrompt (quality example_loaded) (quality example_cleaned)
       (map name example_cleaned)) = None" by simp_all
  have k: "ask_ok (AnalysisPrompt example_loaded) = Some ''ok''"
    "ask_ok (SummaryPrompt (quality example_loaded) (quality example_cleaned)
       (map name example_cleaned)) = Some ''ok''" by (simp_all add: ask_ok_def)
  from narrative_failure_aborts [of ask_fails example_loaded parse_number] f
  have 1: "snd (session ask_fails parse_number (Loaded example_loaded)) = Some NarrativeUnavailable"
    by simp
  from narrative_failure_aborts [of ask_once example_loaded parse_number] c o
  have 2: "snd (session ask_once parse_number (Loaded example_loaded)) = Some NarrativeUnavailable
    \<and> CleanedPreview example_cleaned \<in> set (fst (session ask_once parse_number (Loaded example_loaded)))
    \<and> \<not> list_ex is_csv (fst (session ask_once parse_number (Loaded example_loaded)))"
    by blast
  from narrative_failure_aborts [of ask_ok example_loaded parse_number] c k
  have 3: "list_ex is_csv (fst (session ask_ok parse_number (Loaded example_loaded)))"
    by blast
  from 1 2 3 show ?thesis by blast
qed

section \<open>Imputation\<close>

lemma dropna_empty_iff: "dropna xs = [] \<longleftrightarrow> list_all (\<lambda>x. x = None) xs"
  by (induction xs rule: dropna.induct) auto

lemma set_dropna: "set (dropna xs) = {v. Some v \<in> set xs}"
  by (induction xs rule: dropna.induct) auto

lemma all_none_replicate: "list_all (\<lambda>x. x = None) xs \<Longrightarrow> xs = replicate (length xs) None"
  by (induction xs) auto

lemma sort_empty_iff: "sort xs = [] \<longleftrightarrow> xs = []"
  by (metis length_sort length_0_conv)

lemma median_None_iff: "median xs = None \<longleftrightarrow> dropna xs = []"
proof (cases "dropna xs = []")
  case True
  then show ?thesis by (simp add: median_def)
next
  case False
  have "median xs \<noteq> None"
  proof (cases "odd (length (dropna xs))")
    case True
    with False show ?thesis by (simp add: median_def Let_def sort_empty_iff del: not_None_eq)
  next
    case odd: False
    with False show ?thesis by (simp add: median_def Let_def sort_empty_iff del: not_None_eq)
  qed
  with False show ?thesis by simp
qed

lemma fillna_no_missing: "filter (\<lambda>x. x = None) (fillna v xs) = []"
  by (induction xs) (auto simp add: fillna_def split: option.splits)

lemma length_fillna: "length (fillna v xs) = length xs"
  by (simp add: fillna_def)

lemma impute_no_missing: "\<not> all_missing d \<Longrightarrow> count_missing (impute d) = 0"
proof (cases d)
  case (NumCol xs)
  assume "\<not> all_missing d"
  with NumCol have "dropna xs \<noteq> []" by (simp add: dropna_empty_iff)
  then obtain m where "median xs = Some m" using median_None_iff [of xs] by (cases "median xs") auto
  with NumCol show ?thesis by (simp add: fillna_no_missing)
next
  case (ObjCol xs)
  then show ?thesis by (simp add: fillna_no_missing)
qed

lemma col_len_impute: "col_len (impute d) = col_len d"
  by (cases d) (auto simp add: length_fillna split: option.splits)

lemma to_numeric_vals_length: "to_numeric_vals parse xs = Inr ys \<Longrightarrow> length ys = length xs"
  by (induction parse xs arbitrary: ys rule: to_numeric_vals.induct)
     (auto split: sum.splits option.splits)

lemma to_numeric_vals_missing:
  "to_numeric_vals parse xs = Inr ys \<Longrightarrow>
   list_all (\<lambda>x. x = None) ys \<longleftrightarrow> list_all (\<lambda>x. x = None) xs"
  by (induction parse xs arbitrary: ys rule: to_numeric_vals.induct)
     (auto split: sum.splits option.splits)

lemma all_missing_coerce: "all_missing (coerce parse d) = all_missing d"
proof (cases d)
  case (NumCol xs)
  then show ?thesis by (simp add: coerce_def)
next
  case (ObjCol xs)
  then show ?thesis
    by (cases "to_numeric_vals parse xs") (auto simp add: coerce_def to_numeric_vals_missing)
qed

lemma col_len_coerce: "col_len (coerce parse d) = col_len d"
proof (cases d)
  case (NumCol xs)
  then show ?thesis by (simp add: coerce_def)
next
  case (ObjCol xs)
  then show ?thesis
    by (cases "to_numeric_vals parse xs") (auto simp add: coerce_def to_numeric_vals_length)
qed

lemma coerce_all_missing:
  assumes "all_missing d"
  shows "coerce parse d = NumCol (replicate (col_len d) None)"
proof (cases d)
  case (NumCol xs)
  with assms all_none_replicate [of xs] show ?thesis by (simp add: coerce_def)
next
  case (ObjCol xs)
  with assms have a: "list_all (\<lambda>x. x = None) xs" by simp
  then have "\<forall>s. Some s \<in> set xs \<longrightarrow> parse s \<noteq> None" by (auto simp add: list_all_iff)
  then have "to_numeric_vals parse xs = Inr (map (\<lambda>x. Option.bind x parse) xs)"
    by (rule to_numeric_vals_ok)
  moreover have "map (\<lambda>x. Option.bind x parse) xs = replicate (length xs) None"
    using a by (induction xs) auto
  ultimately show ?thesis using ObjCol by (simp add: coerce_def)
qed

lemma stage4_col_no_missing: "\<not> all_missing d \<Longrightarrow> count_missing (stage4_col parse d) = 0"
  by (simp add: stage4_col_def impute_no_missing all_missing_coerce)

lemma stage4_col_all_missing:
  assumes "all_missing d"
  shows "stage4_col parse d = NumCol (replicate (col_len d) None)"
proof -
  have "dropna (replicate (col_len d) (None :: rat option)) = []"
    by (simp add: dropna_empty_iff list_all_iff)
  then have "median (replicate (col_len d) None) = None" by (simp add: median_None_iff)
  then show ?thesis by (simp add: stage4_col_def coerce_all_missing [OF assms])
qed

lemma col_len_stage4_col: "col_len (stage4_col parse d) = col_len d"
  by (simp add: stage4_col_def col_len_impute col_len_coerce)

section \<open>The mode\<close>

lemma mode_set:
  "dropna xs \<noteq> [] \<Longrightarrow>
   set (mode xs) = {v \<in> set (dropna xs).
      count_list (dropna xs) v = Max (set (map (count_list (dropna xs)) (dropna xs)))}"
  by (simp add: mode_def Let_def)

lemma sorted_mode: "sorted (mode xs)"
  by (simp add: mode_def Let_def)

lemma count_le_Max: "count_list vs v \<le> Max (set (map (count_list vs) vs))"
proof (cases "v \<in> set vs")
  case True
  then show ?thesis by (intro Max_ge) auto
next
  case False
  then show ?thesis by (simp add: count_list_0_iff)
qed

lemma mode_nonempty:
  assumes "dropna xs \<noteq> []"
  shows "mode xs \<noteq> []"
proof -
  let ?vs = "dropna xs"
  have "Max (set (map (count_list ?vs) ?vs)) \<in> set (map (count_list ?vs) ?vs)"
    using assms by (intro Max_in) auto
  then obtain v where "v \<in> set ?vs" "count_list ?vs v = Max (set (map (count_list ?vs) ?vs))"
    by auto
  then have "v \<in> set (mode xs)" using mode_set [OF assms] by simp
  then show ?thesis by auto
qed

lemma fill_value_mode:
  assumes "dropna xs \<noteq> []"
  shows "fill_value xs \<in> set (dropna xs)"
    and "count_list (dropna xs) v \<le> count_list (dropna xs) (fill_value xs)"
    and "v \<in> set (dropna xs) \<Longrightarrow>
         count_list (dropna xs) v = count_list (dropna xs) (fill_value xs) \<Longrightarrow> fill_value xs \<le> v"
proof -
  from mode_nonempty [OF assms] obtain m ms where ms: "mode xs = m # ms" by (cases "mode xs") auto
  then have fv: "fill_value xs = m" by (simp add: fill_value_def)
  have "m \<in> set (mode xs)" using ms by simp
  then have m: "m \<in> set (dropna xs)"
    "count_list (dropna xs) m = Max (set (map (count_list (dropna xs)) (dropna xs)))"
    using mode_set [OF assms] by auto
  show "fill_value xs \<in> set (dropna xs)" using fv m by simp
  show "count_list (dropna xs) v \<le> count_list (dropna xs) (fill_value xs)"
    using fv m count_le_Max [of "dropna xs" v] by simp
  show "fill_value xs \<le> v"
    if "v \<in> set (dropna xs)" "count_list (dropna xs) v = count_list (dropna xs) (fill_value xs)"
  proof -
    from that fv m have "v \<in> set (mode xs)" using mode_set [OF assms] by simp
    moreover have "sorted (m # ms)" using sorted_mode [of xs] ms by simp
    ultimately show ?thesis using ms fv by auto
  qed
qed

lemma fill_value_unknown: "dropna xs = [] \<Longrightarrow> fill_value xs = ''Unknown''"
  by (simp add: fill_value_def mode_def)

text \<open>
  C8: the imputation of a textual column replaces each missing cell by one fill value and
  keeps the other cells. When the column has a non-missing value, the fill value is one of
  its values and no value occurs more often. When the column has no non-missing value, the
  fill value is the text Unknown and every cell becomes Unknown.
\<close>

theorem impute_textual:
  "impute (ObjCol xs) =
     ObjCol (map (\<lambda>x. case x of None \<Rightarrow> Some (fill_value xs) | Some y \<Rightarrow> Some y) xs)
   \<and> (dropna xs \<noteq> [] \<longrightarrow>
        fill_value xs \<in> set (dropna xs)
        \<and> (\<forall>v. count_list (dropna xs) v \<le> count_list (dropna xs) (fill_value xs)))
   \<and> (dropna xs = [] \<longrightarrow>
        fill_value xs = ''Unknown''
        \<and> impute (ObjCol xs) = ObjCol (replicate (length xs) (Some ''Unknown'')))"
proof -
  have a: "impute (ObjCol xs) =
     ObjCol (map (\<lambda>x. case x of None \<Rightarrow> Some (fill_value xs) | Some y \<Rightarrow> Some y) xs)"
    by (simp add: fillna_def)
  have b: "fill_value xs \<in> set (dropna xs)
        \<and> (\<forall>v. count_list (dropna xs) v \<le> count_list (dropna xs) (fill_value xs))"
    if "dropna xs \<noteq> []"
    using fill_value_mode(1,2) [OF that] by blast
  have c: "fill_value xs = ''Unknown''
        \<and> impute (ObjCol xs) = ObjCol (replicate (length xs) (Some ''Unknown''))"
    if "dropna xs = []"
  proof -
    from that have n: "list_all (\<lambda>x. x = None) xs" by (simp add: dropna_empty_iff)
    have "fillna v xs = replicate (length xs) (Some v)" for v :: string
      using n by (induction xs) (auto simp add: fillna_def)
    then show ?thesis using fill_value_unknown [OF that] by simp
  qed
  from a b c show ?thesis by blast
qed

theorem impute_textual_witness:
  "impute (ObjCol [Some ''b'', None, Some ''a'', Some ''b'']) =
     ObjCol [Some ''b'', Some ''b'', Some ''a'', Some ''b'']
   \<and> impute (ObjCol [None, None]) = ObjCol [Some ''Unknown'', Some ''Unknown'']"
proof -
  have f1: "fill_value [Some ''b'', None, Some ''a'', Some ''b''] = ''b''" by code_simp
  have d1: "dropna [Some ''b'', None, Some ''a'', Some ''b''] \<noteq> []" by simp
  have d2: "dropna [None :: string option, None] = []" by simp
  show ?thesis
    using impute_textual [of "[Some ''b'', None, Some ''a'', Some ''b'']"]
      impute_textual [of "[None, None]"] f1 d1 d2
    by (simp add: numeral_2_eq_2 fillna_def)
qed

section \<open>Outlier clipping\<close>

lemma interpolate_bounds:
  assumes "sorted ys" "0 \<le> h" "h \<le> of_nat (length ys - 1)" "ys \<noteq> []"
  shows "nat \<lfloor>h\<rfloor> < length ys"
    and "ys ! nat \<lfloor>h\<rfloor> \<le> interpolate ys h"
    and "interpolate ys h \<le> ys ! min (nat \<lfloor>h\<rfloor> + 1) (length ys - 1)"
proof -
  let ?i = "nat \<lfloor>h\<rfloor>" and ?n = "length ys"
  let ?j = "min (?i + 1) (?n - 1)"
  have "\<lfloor>h\<rfloor> \<le> int (?n - 1)" using assms(3) by (simp add: floor_le_iff)
  then have i: "?i \<le> ?n - 1" using assms(2) by simp
  then show il: "?i < ?n" using assms(4) by (cases ys) auto
  have ij: "?i \<le> ?j" using i by simp
  have jl: "?j < ?n" using assms(4) by (cases ys) auto
  have ab: "ys ! ?i \<le> ys ! ?j" using assms(1) ij jl by (rule sorted_nth_mono)
  have fi: "of_nat ?i = (of_int \<lfloor>h\<rfloor> :: rat)" using assms(2) by simp
  have f0: "0 \<le> h - of_nat ?i" using fi by simp
  have f1: "h - of_nat ?i \<le> 1" using fi by simp linarith
  have m0: "0 \<le> (ys ! ?j - ys ! ?i) * (h - of_nat ?i)" using ab f0 by simp
  have m1: "(ys ! ?j - ys ! ?i) * (h - of_nat ?i) \<le> ys ! ?j - ys ! ?i"
    using ab f0 f1 by (simp add: mult_left_le)
  show "ys ! ?i \<le> interpolate ys h" using m0 by (simp add: interpolate_def Let_def)
  show "interpolate ys h \<le> ys ! ?j" using m1 by (simp add: interpolate_def Let_def)
qed

lemma interpolate_mono:
  assumes "sorted ys" "ys \<noteq> []" "0 \<le> h1" "h1 \<le> h2" "h2 \<le> of_nat (length ys - 1)"
  shows "interpolate ys h1 \<le> interpolate ys h2"
proof -
  let ?i1 = "nat \<lfloor>h1\<rfloor>" and ?i2 = "nat \<lfloor>h2\<rfloor>" and ?n = "length ys"
  have h1n: "h1 \<le> of_nat (?n - 1)" and h20: "0 \<le> h2" using assms by simp_all
  have le: "?i1 \<le> ?i2" using assms(4) by (simp add: floor_mono nat_mono)
  show ?thesis
  proof (cases "?i1 = ?i2")
    case True
    let ?j = "min (?i1 + 1) (?n - 1)"
    have i: "?i1 \<le> ?n - 1"
      using interpolate_bounds(1) [OF assms(1) assms(3) h1n assms(2)] by simp
    have jl: "?j < ?n" using assms(2) by (cases ys) auto
    have ab: "ys ! ?i1 \<le> ys ! ?j" using assms(1) _ jl by (rule sorted_nth_mono) (use i in simp)
    have "interpolate ys h2 - interpolate ys h1 = (ys ! ?j - ys ! ?i1) * (h2 - h1)"
      using True by (simp add: interpolate_def Let_def algebra_simps)
    moreover have "0 \<le> (ys ! ?j - ys ! ?i1) * (h2 - h1)" using ab assms(4) by simp
    ultimately show ?thesis by simp
  next
    case False
    with le have lt: "?i1 + 1 \<le> ?i2" by simp
    have i2: "?i2 < ?n" by (rule interpolate_bounds(1) [OF assms(1) h20 assms(5) assms(2)])
    then have m: "min (?i1 + 1) (?n - 1) = ?i1 + 1" using lt by simp
    have "interpolate ys h1 \<le> ys ! (?i1 + 1)"
      using interpolate_bounds(3) [OF assms(1) assms(3) h1n assms(2)] m by simp
    also have "\<dots> \<le> ys ! ?i2" using assms(1) lt i2 by (rule sorted_nth_mono)
    also have "\<dots> \<le> interpolate ys h2"
      by (rule interpolate_bounds(2) [OF assms(1) h20 assms(5) assms(2)])
    finally show ?thesis .
  qed
qed

lemma median_interpolate:
  assumes "dropna xs \<noteq> []"
  shows "median xs = Some (interpolate (sort (dropna xs)) (of_nat (length (dropna xs) - 1) / 2))"
proof -
  let ?ys = "sort (dropna xs)" and ?n = "length (dropna xs)"
  have n: "?n \<noteq> 0" "length ?ys = ?n" using assms by simp_all
  show ?thesis
  proof (cases "odd ?n")
    case True
    then obtain k where k: "?n = 2 * k + 1" by (auto elim: oddE)
    have h: "(of_nat (?n - 1) / 2 :: rat) = of_nat k" using k by simp
    have "nat \<lfloor>of_nat k :: rat\<rfloor> = k" by simp
    then have "interpolate ?ys (of_nat k) = ?ys ! k" by (simp add: interpolate_def Let_def)
    moreover have "median xs = Some (?ys ! k)" using k True assms by (simp add: median_def Let_def sort_empty_iff)
    ultimately show ?thesis using h by simp
  next
    case False
    then obtain k where k: "?n = 2 * k" by (auto elim: evenE)
    with n have k0: "0 < k" by simp
    then obtain m where m: "k = Suc m" by (cases k) auto
    have h: "(of_nat (?n - 1) / 2 :: rat) = of_nat m + 1 / 2" using k m by (simp add: field_simps)
    have fl: "\<lfloor>of_nat m + 1 / 2 :: rat\<rfloor> = int m" by (simp add: floor_unique)
    have j: "min (m + 1) (length ?ys - 1) = Suc m" using k m n by simp
    have "interpolate ?ys (of_nat m + 1 / 2) = ?ys ! m + (?ys ! Suc m - ?ys ! m) * (1 / 2)"
      using fl j by (simp add: interpolate_def Let_def)
    also have "\<dots> = (?ys ! m + ?ys ! Suc m) / 2" by (simp add: field_simps)
    finally have i: "interpolate ?ys (of_nat m + 1 / 2) = (?ys ! m + ?ys ! Suc m) / 2" .
    have md: "median xs = Some ((?ys ! m + ?ys ! Suc m) / 2)"
      using k m False assms by (simp add: median_def Let_def sort_empty_iff)
    show ?thesis by (simp only: h i md)
  qed
qed

lemma quartiles_around_median:
  assumes "dropna xs \<noteq> []"
  shows "\<exists>q1 q3 med. quantile (1/4) xs = Some q1 \<and> quantile (3/4) xs = Some q3
           \<and> median xs = Some med \<and> q1 \<le> med \<and> med \<le> q3"
proof -
  let ?ys = "sort (dropna xs)"
  let ?h = "of_nat (length ?ys - 1) :: rat"
  have ne: "?ys \<noteq> []" using assms by (metis length_sort length_0_conv)
  have s: "sorted ?ys" by simp
  have h0: "0 \<le> ?h" by simp
  have q1: "quantile (1/4) xs = Some (interpolate ?ys (?h * (1/4)))"
    using ne by (simp add: quantile_def Let_def)
  have q3: "quantile (3/4) xs = Some (interpolate ?ys (?h * (3/4)))"
    using ne by (simp add: quantile_def Let_def)
  have md: "median xs = Some (interpolate ?ys (?h / 2))"
    using median_interpolate [OF assms] by simp
  have a: "interpolate ?ys (?h * (1/4)) \<le> interpolate ?ys (?h / 2)"
    using s ne by (rule interpolate_mono) (use h0 in simp_all)
  have b: "interpolate ?ys (?h / 2) \<le> interpolate ?ys (?h * (3/4))"
    using s ne by (rule interpolate_mono) (use h0 in simp_all)
  from q1 q3 md a b show ?thesis by blast
qed


lemma stage4_col_values:
  assumes "stage4_col parse d = NumCol xs" "dropna xs \<noteq> []"
  shows "None \<notin> set xs"
proof -
  have "\<not> all_missing d"
  proof
    assume "all_missing d"
    then have "stage4_col parse d = NumCol (replicate (col_len d) None)"
      by (rule stage4_col_all_missing)
    with assms(1) have "xs = replicate (col_len d) None" by simp
    then have "dropna xs = []" by (simp add: dropna_empty_iff list_all_iff)
    with assms(2) show False by simp
  qed
  then have "count_missing (stage4_col parse d) = 0" by (rule stage4_col_no_missing)
  with assms(1) have "filter (\<lambda>x. x = None) xs = []" by simp
  then show ?thesis by (auto simp add: filter_empty_conv)
qed

lemma clip_outliers_fences:
  "(dropna xs \<noteq> [] \<longrightarrow>
      (\<exists>q1 q3 med. quantile (1/4) xs = Some q1 \<and> quantile (3/4) xs = Some q3
         \<and> median xs = Some med
         \<and> clip_outliers xs =
             map (\<lambda>x. case x of None \<Rightarrow> None
                     | Some v \<Rightarrow> if v < q1 - 3/2 * (q3 - q1) \<or> q3 + 3/2 * (q3 - q1) < v
                                then Some med else Some v) xs
         \<and> (\<forall>v. Some v \<in> set (clip_outliers xs) \<longrightarrow>
                q1 - 3/2 * (q3 - q1) \<le> v \<and> v \<le> q3 + 3/2 * (q3 - q1))))
   \<and> (dropna xs = [] \<longrightarrow> clip_outliers xs = xs)
   \<and> (stage4_col parse d = NumCol xs \<and> dropna xs \<noteq> [] \<longrightarrow>
        None \<notin> set xs \<and> None \<notin> set (clip_outliers xs))"
proof -
  have a: "\<exists>q1 q3 med. quantile (1/4) xs = Some q1 \<and> quantile (3/4) xs = Some q3
         \<and> median xs = Some med
         \<and> clip_outliers xs =
             map (\<lambda>x. case x of None \<Rightarrow> None
                     | Some v \<Rightarrow> if v < q1 - 3/2 * (q3 - q1) \<or> q3 + 3/2 * (q3 - q1) < v
                                then Some med else Some v) xs
         \<and> (\<forall>v. Some v \<in> set (clip_outliers xs) \<longrightarrow>
                q1 - 3/2 * (q3 - q1) \<le> v \<and> v \<le> q3 + 3/2 * (q3 - q1))"
    if ne: "dropna xs \<noteq> []"
  proof -
    from quartiles_around_median [OF ne] obtain q1 q3 med where
      q: "quantile (1/4) xs = Some q1" "quantile (3/4) xs = Some q3" "median xs = Some med"
      and o: "q1 \<le> med" "med \<le> q3" by blast
    let ?lo = "q1 - 3/2 * (q3 - q1)" and ?hi = "q3 + 3/2 * (q3 - q1)"
    let ?f = "\<lambda>x. case x of None \<Rightarrow> None
                     | Some v \<Rightarrow> if v < ?lo \<or> ?hi < v then Some med else Some v"
    have c: "clip_outliers xs = map ?f xs"
      unfolding clip_outliers_def q by (simp only: Let_def prod.case option.case)
    have w: "0 \<le> 3/2 * (q3 - q1)" using o by simp
    have "?lo \<le> med" using o w by linarith
    moreover have "med \<le> ?hi" using o w by linarith
    ultimately have "?lo \<le> med \<and> med \<le> ?hi" by (rule conjI)
    then have "?lo \<le> v \<and> v \<le> ?hi" if "Some v \<in> set (map ?f xs)" for v
      using that by (auto split: option.splits if_splits)
    with q c show ?thesis by auto
  qed
  have b: "clip_outliers xs = xs" if "dropna xs = []"
    using that by (simp add: clip_outliers_def quantile_def Let_def sort_empty_iff)
  have c: "None \<notin> set xs \<and> None \<notin> set (clip_outliers xs)"
    if "stage4_col parse d = NumCol xs" "dropna xs \<noteq> []"
  proof -
    have n: "None \<notin> set xs" using that by (rule stage4_col_values)
    from a [OF that(2)] obtain q1 q3 med where
      "clip_outliers xs =
             map (\<lambda>x. case x of None \<Rightarrow> None
                     | Some v \<Rightarrow> if v < q1 - 3/2 * (q3 - q1) \<or> q3 + 3/2 * (q3 - q1) < v
                                then Some med else Some v) xs" by blast
    then have "None \<notin> set (clip_outliers xs)" using n by (auto split: option.splits if_splits)
    with n show ?thesis by simp
  qed
  from a b c show ?thesis by blast
qed

section \<open>Duplicate row removal\<close>

lemma length_duplicated_from: "length (duplicated_from seen rs) = length rs"
  by (induction rs arbitrary: seen) auto

lemma duplicated_from_nth:
  "i < length rs \<Longrightarrow>
   duplicated_from seen rs ! i \<longleftrightarrow> (rs ! i \<in> set seen \<or> (\<exists>j<i. rs ! j = rs ! i))"
proof (induction rs arbitrary: seen i)
  case Nil
  then show ?case by simp
next
  case (Cons r rs)
  show ?case
  proof (cases i)
    case 0
    then show ?thesis by simp
  next
    case (Suc k)
    with Cons.prems have k: "k < length rs" by simp
    have ex: "(\<exists>j<Suc k. (r # rs) ! j = rs ! k) \<longleftrightarrow> (r = rs ! k \<or> (\<exists>j<k. rs ! j = rs ! k))"
      by (auto simp add: less_Suc_eq_0_disj)
    show ?thesis using Cons.IH [OF k] Suc ex by auto
  qed
qed

lemma take_mask_map: "take_mask m (map f xs) = map f (take_mask m xs)"
  by (induction m xs rule: take_mask.induct) auto

lemma take_mask_nths:
  "length m = length xs \<Longrightarrow> take_mask m xs = nths xs {i. i < length m \<and> m ! i}"
proof (induction m xs rule: list_induct2)
  case Nil
  then show ?case by simp
next
  case (Cons b bs x xs)
  have "{j. Suc j < Suc (length bs) \<and> (b # bs) ! Suc j} = {i. i < length bs \<and> bs ! i}" by simp
  with Cons show ?case by (simp add: nths_Cons)
qed

lemma take_mask_sel:
  "length m = length xs \<Longrightarrow>
   take_mask m xs = map ((!) xs) (filter ((!) m) [0..<length m])"
proof (induction m xs rule: list_induct2)
  case Nil
  then show ?case by simp
next
  case (Cons b bs x xs)
  have u: "[0..<Suc (length bs)] = 0 # map Suc [0..<length bs]"
    by (simp add: upt_conv_Cons map_Suc_upt del: upt_Suc)
  have f: "filter ((!) (b # bs)) [0..<length (b # bs)]
      = (if b then [0] else []) @ map Suc (filter ((!) bs) [0..<length bs])"
    unfolding length_Cons u by (simp add: filter_map comp_def)
  show ?case unfolding f using Cons by (simp add: comp_def)
qed

lemma dedup_set_distinct:
  "set (take_mask (map Not (duplicated_from seen rs)) rs) = set rs - set seen
   \<and> distinct (take_mask (map Not (duplicated_from seen rs)) rs)"
proof (induction rs arbitrary: seen)
  case Nil
  then show ?case by simp
next
  case (Cons r rs)
  show ?case
  proof (cases "r \<in> set seen")
    case True
    with Cons [of seen] show ?thesis by auto
  next
    case False
    with Cons [of "r # seen"] show ?thesis by auto
  qed
qed

lemma duplicated_from_distinct:
  assumes "distinct rs"
  shows "duplicated_from [] rs = replicate (length rs) False"
proof (rule nth_equalityI)
  show "length (duplicated_from [] rs) = length (replicate (length rs) False)"
    by (simp add: length_duplicated_from)
next
  fix i assume "i < length (duplicated_from [] rs)"
  then have i: "i < length rs" by (simp add: length_duplicated_from)
  have "\<not> (\<exists>j<i. rs ! j = rs ! i)" using assms i by (auto simp add: nth_eq_iff_index_eq)
  then show "duplicated_from [] rs ! i = replicate (length rs) False ! i"
    using duplicated_from_nth [OF i, of "[]"] i by simp
qed

lemma take_mask_all: "take_mask (replicate (length xs) True) xs = xs"
  by (induction xs) auto

lemma cells_take_mask_col: "cells (take_mask_col m d) = take_mask m (cells d)"
  by (cases d) (simp_all add: take_mask_map)

lemma length_cells: "length (cells d) = col_len d"
  by (cases d) simp_all

lemma col_len_take_mask_col:
  "col_len d = length m \<Longrightarrow> col_len (take_mask_col m d) = length (filter ((!) m) [0..<length m])"
  using take_mask_sel [of m "cells d"] cells_take_mask_col [of m d] length_cells [of d]
  by (metis length_cells length_map)

lemma rows_nth: "i < nrows t \<Longrightarrow> rows t ! i = row_at t i"
  by (simp add: rows_def)

lemma length_rows: "length (rows t) = nrows t"
  by (simp add: rows_def)

lemma rows_masked:
  assumes "wf_table t" "length m = nrows t"
  shows "rows (map (\<lambda>c. Column (name c) (take_mask_col m (data c))) t) = take_mask m (rows t)"
proof (cases t)
  case Nil
  then show ?thesis by (simp add: rows_def nrows_def)
next
  case (Cons c0 cs)
  let ?t' = "map (\<lambda>c. Column (name c) (take_mask_col m (data c))) t"
  let ?sel = "filter ((!) m) [0..<length m]"
  have len: "col_len (data c) = length m" if "c \<in> set t" for c
    using assms that by (simp add: wf_table_def list_all_iff)
  have n': "nrows ?t' = length ?sel"
    using Cons len [of c0] by (simp add: nrows_def col_len_take_mask_col)
  have cell: "cells (take_mask_col m (data c)) ! k = cells (data c) ! (?sel ! k)"
    if "c \<in> set t" "k < length ?sel" for c k
  proof -
    have "length m = length (cells (data c))" using len [OF that(1)] by (simp add: length_cells)
    then have "take_mask m (cells (data c)) = map ((!) (cells (data c))) ?sel"
      by (rule take_mask_sel)
    then show ?thesis using that(2) by (simp add: cells_take_mask_col)
  qed
  have row: "row_at ?t' k = row_at t (?sel ! k)" if "k < length ?sel" for k
    using cell that by (simp add: row_at_def comp_def)
  have "rows ?t' = map (\<lambda>k. row_at t (?sel ! k)) [0..<length ?sel]"
    using row by (simp add: rows_def n')
  also have "\<dots> = map (row_at t) (map ((!) ?sel) [0..<length ?sel])" by (simp add: comp_def)
  also have "\<dots> = map (row_at t) ?sel" by (simp only: map_nth)
  also have "\<dots> = map ((!) (rows t)) ?sel"
    using assms(2) by (auto simp add: rows_nth)
  also have "\<dots> = take_mask m (rows t)"
    using take_mask_sel [of m "rows t"] assms(2) by (simp add: length_rows)
  finally show ?thesis .
qed

lemma rows_empty: "df_size t = 0 \<Longrightarrow> rows t = []"
  by (cases t) (auto simp add: df_size_def ncols_def nrows_def rows_def)

lemma rows_drop_duplicates:
  assumes "wf_table t"
  shows "rows (drop_duplicates t) = take_mask (map Not (duplicated_from [] (rows t))) (rows t)"
proof (cases "df_size t = 0")
  case True
  then show ?thesis by (simp add: drop_duplicates_def rows_empty)
next
  case False
  have "length (map Not (duplicated t)) = nrows t"
    by (simp add: duplicated_def length_duplicated_from length_rows)
  from rows_masked [OF assms this] False show ?thesis
    by (simp add: drop_duplicates_def duplicated_def)
qed

lemma wf_masked:
  assumes "wf_table t" "length m = nrows t"
  shows "wf_table (map (\<lambda>c. Column (name c) (take_mask_col m (data c))) t)"
proof -
  have len: "col_len (data c) = length m" if "c \<in> set t" for c
    using assms that by (simp add: wf_table_def list_all_iff)
  show ?thesis
  proof (cases t)
    case Nil
    then show ?thesis by (simp add: wf_table_def)
  next
    case (Cons c0 cs)
    then show ?thesis using len
      by (simp add: wf_table_def list_all_iff nrows_def col_len_take_mask_col)
  qed
qed

lemma wf_drop_duplicates: "wf_table t \<Longrightarrow> wf_table (drop_duplicates t)"
  using wf_masked [of t "map Not (duplicated t)"]
  by (simp add: drop_duplicates_def duplicated_def length_duplicated_from length_rows)

lemma nths_cong_below:
  "(\<And>i. i < length xs \<Longrightarrow> i \<in> A \<longleftrightarrow> i \<in> B) \<Longrightarrow> nths xs A = nths xs B"
  unfolding nths_def by (rule arg_cong [where f = "map fst"], rule filter_cong) (auto simp add: set_zip)

text \<open>
  C7: the rows left by duplicate removal are the rows of the table at the positions that
  have no equal row at an earlier position, in their original order (two missing cells
  are equal). So exactly the rows that repeat an earlier row are removed and the first
  occurrence stays: the result is a subsequence of the rows, has no row twice, and has
  every row of the table. The headers are unchanged.
\<close>

theorem drop_duplicates_first_occurrences:
  assumes "wf_table t"
  shows "rows (drop_duplicates t) = nths (rows t) {i. \<forall>j<i. row_at t j \<noteq> row_at t i}
    \<and> subseq (rows (drop_duplicates t)) (rows t)
    \<and> distinct (rows (drop_duplicates t))
    \<and> set (rows (drop_duplicates t)) = set (rows t)
    \<and> map name (drop_duplicates t) = map name t"
proof -
  let ?rs = "rows t"
  let ?m = "map Not (duplicated_from [] ?rs)"
  have r: "rows (drop_duplicates t) = take_mask ?m ?rs" by (rule rows_drop_duplicates [OF assms])
  have "take_mask ?m ?rs = nths ?rs {i. i < length ?m \<and> ?m ! i}"
    by (rule take_mask_nths) (simp add: length_duplicated_from)
  also have "\<dots> = nths ?rs {i. \<forall>j<i. row_at t j \<noteq> row_at t i}"
  proof (rule nths_cong_below)
    fix i assume i: "i < length ?rs"
    then have "?m ! i \<longleftrightarrow> \<not> (\<exists>j<i. ?rs ! j = ?rs ! i)"
      using duplicated_from_nth [OF i, of "[]"] by (simp add: length_duplicated_from)
    also have "\<dots> \<longleftrightarrow> (\<forall>j<i. row_at t j \<noteq> row_at t i)"
      using i by (auto simp add: length_rows rows_nth)
    finally show "i \<in> {i. i < length ?m \<and> ?m ! i} \<longleftrightarrow> i \<in> {i. \<forall>j<i. row_at t j \<noteq> row_at t i}"
      using i by (simp add: length_duplicated_from)
  qed
  finally have a: "rows (drop_duplicates t) = nths ?rs {i. \<forall>j<i. row_at t j \<noteq> row_at t i}"
    using r by simp
  then have b: "subseq (rows (drop_duplicates t)) ?rs" using subseq_conv_nths by blast
  have c: "distinct (rows (drop_duplicates t))" "set (rows (drop_duplicates t)) = set ?rs"
    using dedup_set_distinct [of "[]" ?rs] r by simp_all
  have d: "map name (drop_duplicates t) = map name t"
    by (simp add: drop_duplicates_def comp_def)
  from a b c d show ?thesis by blast
qed

theorem drop_duplicates_first_occurrences_witness:
  "wf_table example_loaded
   \<and> rows example_loaded = [[Txt ''Alice'', Num 30], [Txt ''Alice'', Num 30], [Txt ''Bob'', Missing]]
   \<and> rows (drop_duplicates example_loaded) = [[Txt ''Alice'', Num 30], [Txt ''Bob'', Missing]]
   \<and> distinct (rows (drop_duplicates example_loaded))"
proof -
  have w: "wf_table example_loaded" by code_simp
  have r: "rows example_loaded
     = [[Txt ''Alice'', Num 30], [Txt ''Alice'', Num 30], [Txt ''Bob'', Missing]]" by code_simp
  have d: "rows (drop_duplicates example_loaded) = [[Txt ''Alice'', Num 30], [Txt ''Bob'', Missing]]"
    by code_simp
  from drop_duplicates_first_occurrences [OF w] have "distinct (rows (drop_duplicates example_loaded))"
    by blast
  with w r d show ?thesis by simp
qed

text \<open>
  C9: duplicate removal applied to its own result changes nothing, neither the table nor
  its rows.
\<close>

theorem drop_duplicates_idempotent:
  assumes "wf_table t"
  shows "drop_duplicates (drop_duplicates t) = drop_duplicates t
    \<and> rows (drop_duplicates (drop_duplicates t)) = rows (drop_duplicates t)"
proof -
  let ?t' = "drop_duplicates t"
  have w: "wf_table ?t'" by (rule wf_drop_duplicates [OF assms])
  have "distinct (rows ?t')"
    using dedup_set_distinct [of "[]" "rows t"] rows_drop_duplicates [OF assms] by simp
  then have m: "map Not (duplicated ?t') = replicate (nrows ?t') True"
    by (simp add: duplicated_def duplicated_from_distinct length_rows)
  have col: "Column (name c) (take_mask_col (replicate (nrows ?t') True) (data c)) = c"
    if "c \<in> set ?t'" for c
  proof -
    have l: "col_len (data c) = nrows ?t'" using w that by (simp add: wf_table_def list_all_iff)
    have "take_mask_col (replicate (col_len d) True) d = d" for d
      by (cases d) (simp_all add: take_mask_all)
    with l show ?thesis by (metis column.collapse)
  qed
  have "drop_duplicates ?t' = ?t'"
  proof (cases "df_size ?t' = 0")
    case True
    then show ?thesis by (simp add: drop_duplicates_def [of ?t'])
  next
    case False
    then have "drop_duplicates ?t'
      = map (\<lambda>c. Column (name c) (take_mask_col (replicate (nrows ?t') True) (data c))) ?t'"
      using m by (simp add: drop_duplicates_def [of ?t'])
    also have "\<dots> = map (\<lambda>c. c) ?t'" by (rule map_cong) (use col in auto)
    finally show ?thesis by simp
  qed
  then show ?thesis by simp
qed

theorem drop_duplicates_idempotent_witness:
  "wf_table example_loaded
   \<and> drop_duplicates (drop_duplicates example_loaded) = drop_duplicates example_loaded
   \<and> drop_duplicates example_loaded
       = [Column ''Name'' (ObjCol [Some ''Alice'', Some ''Bob'']),
          Column '' Age '' (NumCol [Some 30, None])]"
proof -
  have w: "wf_table example_loaded" by code_simp
  have d: "drop_duplicates example_loaded
       = [Column ''Name'' (ObjCol [Some ''Alice'', Some ''Bob'']),
          Column '' Age '' (NumCol [Some 30, None])]" by code_simp
  from drop_duplicates_idempotent [OF w] w d show ?thesis by simp
qed

section \<open>Stage 4 on a table\<close>

lemma names_stage3: "map name (stage3 df) = map (\<lambda>c. strip (name c)) df"
  by (simp add: stage3_def blank_to_missing_def drop_duplicates_def strip_headers_def comp_def)

lemma length_stage3: "length (stage3 df) = length df"
  using names_stage3 [of df] by (metis length_map)

lemma clean_stage3:
  "clean parse df = (case stage4 parse (stage3 df) of Inl e \<Rightarrow> Inl e
                     | Inr df4 \<Rightarrow> Inr (prune (stage5 df4)))"
  by (simp add: clean_def stage3_def)

lemma clip_col_all_missing: "all_missing d \<Longrightarrow> clip_col d = d"
proof (cases d)
  case (NumCol xs)
  assume "all_missing d"
  with NumCol have "dropna xs = []" by (simp add: dropna_empty_iff)
  then have "clip_outliers xs = xs" using clip_outliers_fences [of xs] by blast
  with NumCol show ?thesis by simp
next
  case (ObjCol xs)
  then show ?thesis by simp
qed

lemma pruned_names:
  assumes "distinct (map name df4)" "i < length df4" "all_missing (data (df4 ! i))"
  shows "name (df4 ! i) \<notin> set (map name (prune (stage5 df4)))"
proof
  assume "name (df4 ! i) \<in> set (map name (prune (stage5 df4)))"
  then obtain c where c: "c \<in> set (prune (stage5 df4))" "name c = name (df4 ! i)" by auto
  then have k: "c \<in> set (stage5 df4)" "\<not> all_missing (data c)" by (auto simp add: prune_def)
  then obtain c' where c': "c' \<in> set df4" "c = Column (name c') (clip_col (data c'))"
    by (auto simp add: stage5_def)
  have "name c' = name (df4 ! i)" using c c' by simp
  moreover have "df4 ! i \<in> set df4" using assms(2) by simp
  ultimately have "c' = df4 ! i" using assms(1) c'(1) by (auto simp add: distinct_map dest: inj_onD)
  then have "data c = data (df4 ! i)" using c' clip_col_all_missing [OF assms(3)] by simp
  with assms(3) k(2) show False by simp
qed

text \<open>
  C3, as stated, fails: a column whose cells are all missing is numeric after coercion,
  its median is nan, and filling with nan leaves every cell missing. The second column of
  both tables is still entirely missing after stage 4.
\<close>

theorem stage4_counterexample:
  "stage4 parse_number (blank_to_missing (drop_duplicates (strip_headers gap_column)))
     = Inr gap_column
   \<and> stage4 parse_number (blank_to_missing (drop_duplicates (strip_headers blank_column)))
     = Inr [Column ''a'' (ObjCol [Some ''x'', Some ''y'']), Column ''b'' (NumCol [None, None])]
   \<and> missing_cells gap_column = 2"
  by code_simp

text \<open>
  C3, amended: on every input table whose trimmed headers are distinct, stage 4 raises no
  error, and the pipeline returns the pruned result of stage 5. Take a column as it is
  after stage 3, that is after blanks have become missing. If it has a non-missing cell,
  it has no missing cell after stage 4. If all its cells are missing, it is after stage 4
  a numeric column of as many missing cells, and stage 6 removes it: its header is not
  among the headers of the cleaned table.
\<close>

theorem stage4_imputes:
  assumes "distinct (map (\<lambda>c. strip (name c)) df)"
  shows "\<exists>df4. stage4 parse (stage3 df) = Inr df4
     \<and> clean parse df = Inr (prune (stage5 df4))
     \<and> map name df4 = map (\<lambda>c. strip (name c)) df
     \<and> (\<forall>i < length df.
          col_len (data (df4 ! i)) = col_len (data (stage3 df ! i)) \<and>
          (\<not> all_missing (data (stage3 df ! i)) \<longrightarrow> count_missing (data (df4 ! i)) = 0) \<and>
          (all_missing (data (stage3 df ! i)) \<longrightarrow>
             data (df4 ! i) = NumCol (replicate (col_len (data (stage3 df ! i))) None)
             \<and> name (df4 ! i) \<notin> set (map name (prune (stage5 df4)))))"
proof -
  let ?df3 = "stage3 df"
  let ?df4 = "map (\<lambda>c. Column (name c) (stage4_col parse (data c))) ?df3"
  have d3: "distinct (map name ?df3)" using assms by (simp add: names_stage3)
  have s4: "stage4 parse ?df3 = Inr ?df4" using d3 by (simp add: stage4_def)
  have cl: "clean parse df = Inr (prune (stage5 ?df4))" using s4 by (simp add: clean_stage3)
  have nm: "map name ?df4 = map (\<lambda>c. strip (name c)) df"
    using names_stage3 [of df] by (simp add: comp_def)
  have d4: "distinct (map name ?df4)" using assms nm by simp
  have col: "col_len (data (?df4 ! i)) = col_len (data (?df3 ! i)) \<and>
          (\<not> all_missing (data (?df3 ! i)) \<longrightarrow> count_missing (data (?df4 ! i)) = 0) \<and>
          (all_missing (data (?df3 ! i)) \<longrightarrow>
             data (?df4 ! i) = NumCol (replicate (col_len (data (?df3 ! i))) None)
             \<and> name (?df4 ! i) \<notin> set (map name (prune (stage5 ?df4))))"
    if i: "i < length df" for i
  proof -
    have i3: "i < length ?df3" using i by (simp add: length_stage3)
    then have e: "data (?df4 ! i) = stage4_col parse (data (?df3 ! i))" by simp
    have "name (?df4 ! i) \<notin> set (map name (prune (stage5 ?df4)))"
      if a: "all_missing (data (?df3 ! i))"
    proof (rule pruned_names [OF d4])
      show "i < length ?df4" using i3 by simp
      have "all_missing (NumCol (replicate (col_len (data (?df3 ! i))) None))"
        by (simp add: list_all_iff)
      then show "all_missing (data (?df4 ! i))"
        using e stage4_col_all_missing [OF a, of parse] by simp
    qed
    then show ?thesis
      using e by (simp add: col_len_stage4_col stage4_col_no_missing stage4_col_all_missing)
  qed
  from s4 cl nm col show ?thesis by blast
qed

theorem stage4_imputes_witness:
  "distinct (map (\<lambda>c. strip (name c)) mixed)
   \<and> stage4 parse_number (stage3 mixed) =
       Inr [Column ''n'' (NumCol [Some 4, Some 5, Some 6]),
            Column ''t'' (ObjCol [Some ''u'', Some ''u'', Some ''u'']),
            Column ''e'' (NumCol [None, None, None])]
   \<and> clean parse_number mixed =
       Inr [Column ''n'' (NumCol [Some 4, Some 5, Some 6]),
            Column ''t'' (ObjCol [Some ''u'', Some ''u'', Some ''u''])]"
proof -
  have d: "distinct (map (\<lambda>c. strip (name c)) mixed)" by code_simp
  have s: "stage4 parse_number (stage3 mixed) =
       Inr [Column ''n'' (NumCol [Some 4, Some 5, Some 6]),
            Column ''t'' (ObjCol [Some ''u'', Some ''u'', Some ''u'']),
            Column ''e'' (NumCol [None, None, None])]" by code_simp
  have p: "prune (stage5 [Column ''n'' (NumCol [Some 4, Some 5, Some 6]),
            Column ''t'' (ObjCol [Some ''u'', Some ''u'', Some ''u'']),
            Column ''e'' (NumCol [None, None, None])])
     = [Column ''n'' (NumCol [Some 4, Some 5, Some 6]),
        Column ''t'' (ObjCol [Some ''u'', Some ''u'', Some ''u''])]" by code_simp
  from stage4_imputes [OF d, of parse_number] obtain df4 where
    "stage4 parse_number (stage3 mixed) = Inr df4"
    "clean parse_number mixed = Inr (prune (stage5 df4))" by blast
  with s p d show ?thesis by simp
qed

section \<open>Stage 5 on a table\<close>




section \<open>Determinism\<close>

lemma mode_by_order:
  assumes "table_order h"
  shows "mode_by h xs = mode xs"
proof (cases "dropna xs = []")
  case True
  then show ?thesis by (simp add: mode_by_def mode_def)
next
  case False
  let ?vs = "dropna xs"
  let ?ys = "filter (\<lambda>v. count_list ?vs v = Max (set (map (count_list ?vs) ?vs))) ?vs"
  have h: "distinct (h ?ys)" "set (h ?ys) = set ?ys" using assms by (simp_all add: table_order_def)
  have "sort (h ?ys) = sort (remdups ?ys)"
  proof (rule sorted_distinct_set_unique)
    show "sorted (sort (h ?ys))" "sorted (sort (remdups ?ys))" by simp_all
    show "distinct (sort (h ?ys))" using h(1) by simp
    show "distinct (sort (remdups ?ys))" by simp
    show "set (sort (h ?ys)) = set (sort (remdups ?ys))" using h(2) by simp
  qed
  with False show ?thesis by (simp add: mode_by_def mode_def Let_def)
qed

lemma fill_value_by_order: "table_order h \<Longrightarrow> fill_value_by h xs = fill_value xs"
  by (simp add: fill_value_by_def fill_value_def mode_by_order)

lemma impute_by_order: "table_order h \<Longrightarrow> impute_by h d = impute d"
  by (cases d) (simp_all add: fill_value_by_order)

lemma clean_by_order: "table_order h \<Longrightarrow> clean_by h parse df = clean parse df"
  by (simp add: clean_by_def clean_def stage4_by_def stage4_def stage4_col_def impute_by_order)

lemma table_order_remdups: "table_order remdups"
  by (simp add: table_order_def)

lemma table_order_rev: "table_order rev_order"
  by (simp add: table_order_def rev_order_def)

lemma session_outputs:
  "prefix (filter cleaning_output (fst (session ask parse (Loaded df))))
     (BeforeMetric (quality df) #
        (case clean parse df of Inl e \<Rightarrow> []
         | Inr df' \<Rightarrow> [CleanedPreview df',
                       Metrics (quality df) (quality df') (np_sub (quality df') (quality df)),
                       CsvDownload df']))"
  by (auto simp add: Let_def split: option.splits sum.splits)

lemma session_comparable:
  "prefix (filter cleaning_output (fst (session ask1 parse u)))
          (filter cleaning_output (fst (session ask2 parse u)))
   \<or> prefix (filter cleaning_output (fst (session ask2 parse u)))
             (filter cleaning_output (fst (session ask1 parse u)))"
proof (cases u)
  case NoFile
  then show ?thesis by simp
next
  case Unreadable
  then show ?thesis by simp
next
  case (Loaded df)
  show ?thesis unfolding Loaded
    by (rule prefix_same_cases) (rule session_outputs)+
qed

lemma session_complete:
  assumes "snd (session ask parse (Loaded df)) = None"
  shows "\<exists>df'. clean parse df = Inr df' \<and>
     filter cleaning_output (fst (session ask parse (Loaded df)))
       = [BeforeMetric (quality df), CleanedPreview df',
          Metrics (quality df) (quality df') (np_sub (quality df') (quality df)),
          CsvDownload df']"
  using assms by (auto simp add: Let_def split: option.splits sum.splits)

text \<open>
  C10: the cleaned table, or the error, does not depend on the order in which the hash
  table of \<open>mode\<close> gives the most frequent values: any two enumerations give the same
  result and the same score. Of their cleaning outputs (scores, cleaned table, CSV), two
  runs on the same upload show the same ones as far as both get, whatever the text
  generator does in either run, and the same list when both end without error. The fill
  value of a textual column is a most frequent value, and among the values of that
  frequency the first one in sorted order, under every enumeration.
\<close>

theorem cleaning_deterministic:
  "(table_order h1 \<and> table_order h2 \<longrightarrow>
      clean_by h1 parse df = clean_by h2 parse df
      \<and> clean_by h1 parse df = clean parse df
      \<and> (\<forall>d1 d2. clean_by h1 parse df = Inr d1 \<and> clean_by h2 parse df = Inr d2 \<longrightarrow>
            d1 = d2 \<and> quality d1 = quality d2))
   \<and> (prefix (filter cleaning_output (fst (session ask1 parse u)))
              (filter cleaning_output (fst (session ask2 parse u)))
        \<or> prefix (filter cleaning_output (fst (session ask2 parse u)))
                  (filter cleaning_output (fst (session ask1 parse u))))
   \<and> (snd (session ask1 parse u) = None \<and> snd (session ask2 parse u) = None \<longrightarrow>
        filter cleaning_output (fst (session ask1 parse u))
          = filter cleaning_output (fst (session ask2 parse u)))
   \<and> (table_order h1 \<and> dropna xs \<noteq> [] \<longrightarrow>
        fill_value_by h1 xs \<in> set (dropna xs)
        \<and> (\<forall>v. count_list (dropna xs) v \<le> count_list (dropna xs) (fill_value_by h1 xs))
        \<and> (\<forall>v \<in> set (dropna xs).
              count_list (dropna xs) v = count_list (dropna xs) (fill_value_by h1 xs) \<longrightarrow>
              fill_value_by h1 xs \<le> v))"
proof -
  have a: "clean_by h1 parse df = clean_by h2 parse df
      \<and> clean_by h1 parse df = clean parse df
      \<and> (\<forall>d1 d2. clean_by h1 parse df = Inr d1 \<and> clean_by h2 parse df = Inr d2 \<longrightarrow>
            d1 = d2 \<and> quality d1 = quality d2)"
    if "table_order h1" "table_order h2"
    using clean_by_order [OF that(1), of parse df] clean_by_order [OF that(2), of parse df]
    by auto
  have c: "filter cleaning_output (fst (session ask1 parse u))
        = filter cleaning_output (fst (session ask2 parse u))"
    if "snd (session ask1 parse u) = None" "snd (session ask2 parse u) = None"
  proof (cases u)
    case NoFile
    then show ?thesis by simp
  next
    case Unreadable
    then show ?thesis by simp
  next
    case (Loaded df)
    from session_complete [of ask1 parse df] session_complete [of ask2 parse df] that Loaded
    show ?thesis by auto
  qed
  have d: "fill_value_by h1 xs \<in> set (dropna xs)
        \<and> (\<forall>v. count_list (dropna xs) v \<le> count_list (dropna xs) (fill_value_by h1 xs))
        \<and> (\<forall>v \<in> set (dropna xs).
              count_list (dropna xs) v = count_list (dropna xs) (fill_value_by h1 xs) \<longrightarrow>
              fill_value_by h1 xs \<le> v)"
    if "table_order h1" "dropna xs \<noteq> []"
    using fill_value_mode [OF that(2)] fill_value_by_order [OF that(1), of xs] by auto
  from a session_comparable [of ask1 parse u ask2] c d show ?thesis by blast
qed

theorem cleaning_deterministic_witness:
  "table_order remdups \<and> table_order rev_order
   \<and> clean_by remdups parse_number tied_upload = clean_by rev_order parse_number tied_upload
   \<and> clean_by remdups parse_number tied_upload
       = Inr [Column ''k'' (NumCol [Some 1, Some 2, Some 3]),
              Column ''c'' (ObjCol [Some ''b'', Some ''a'', Some ''a''])]
   \<and> prefix (filter cleaning_output (fst (session ask_once parse_number (Loaded tied_upload))))
             (filter cleaning_output (fst (session ask_ok parse_number (Loaded tied_upload))))
   \<and> fill_value_by rev_order [Some ''b'', Some ''a'', None] = ''a''"
proof -
  have c: "clean_by remdups parse_number tied_upload
       = Inr [Column ''k'' (NumCol [Some 1, Some 2, Some 3]),
              Column ''c'' (ObjCol [Some ''b'', Some ''a'', Some ''a''])]" by code_simp
  have f: "fill_value_by rev_order [Some ''b'', Some ''a'', None] = ''a''" by code_simp
  have p: "prefix (filter cleaning_output (fst (session ask_once parse_number (Loaded tied_upload))))
             (filter cleaning_output (fst (session ask_ok parse_number (Loaded tied_upload))))"
    by code_simp
  from cleaning_deterministic [of remdups rev_order parse_number tied_upload
      ask_ok "Loaded tied_upload" ask_ok "[Some ''b'', Some ''a'', None]"]
    table_order_remdups table_order_rev
  have "clean_by remdups parse_number tied_upload = clean_by rev_order parse_number tied_upload"
    by blast
  with c f p table_order_remdups table_order_rev show ?thesis by simp
qed

end
